theory Spec2Isabelle
  imports Main
begin

section \<open>The connection cache of \<^verbatim>\<open>src/lib/mongodb.ts\<close>\<close>

text \<open>
  The module reads one environment variable when it is evaluated, keeps a cache
  record on the process-wide global object and exports two functions,
  \<^verbatim>\<open>connectToDatabase\<close> (an async function) and
  \<^verbatim>\<open>getMongoNativeConnection\<close>.

  JavaScript runs one call frame at a time and a frame gives up control only at an
  \<^verbatim>\<open>await\<close>, so the process is modelled as a transition system: each event is one
  uninterrupted piece of code (the evaluation of the module, the part of a call before
  its \<^verbatim>\<open>await\<close>, the part after it) or one action of the environment (the driver
  settling the handshake promise). Objects that are shared by reference (the cache
  record, promises) live in stores indexed by addresses.
\<close>

subsection \<open>Values\<close>

datatype js_error = Error string

datatype Connection = Connection nat

text \<open>A Mongoose instance: its identity as an object and the native driver connection
  it embeds (its \<^verbatim>\<open>connection\<close> property).\<close>

record Mongoose =
  instance_id :: nat
  connection :: Connection

type_synonym ConnectOptions = "(string \<times> string) list"

datatype promise_state = Pending | Fulfilled Mongoose | Rejected js_error

text \<open>A promise object. \<open>chained_on\<close> is \<open>None\<close> for the promise that
  \<^verbatim>\<open>mongoose.connect\<close> returns (only the driver settles it) and \<open>Some p\<close> for the
  promise that \<^verbatim>\<open>p.then(callback)\<close> returns.\<close>

record promise_obj =
  chained_on :: "nat option"
  pstate :: promise_state

text \<open>\<^verbatim>\<open>interface MongooseCache { conn: Mongoose | null; promise: Promise<Mongoose> | null }\<close>;
  the promise is held by reference.\<close>

record MongooseCache =
  conn :: "Mongoose option"
  promise :: "nat option"

text \<open>The bindings of one evaluation of the module that its exported functions close
  over: the constant \<^verbatim>\<open>MONGODB_URI\<close> and the constant \<^verbatim>\<open>cached\<close>, a reference to
  a cache record.\<close>

record module_instance =
  MONGODB_URI :: string
  cached :: nat

text \<open>The state of one call of \<^verbatim>\<open>connectToDatabase\<close>: suspended at the
  \<^verbatim>\<open>await\<close> of line 79 on a promise, or finished (the promise the async function
  returned is fulfilled with a handle, or rejected with an error).\<close>

datatype frame_status = Awaiting nat | Returned Mongoose | Threw js_error

type_synonym env = "string \<Rightarrow> string option"

record world =
  heap :: "nat \<Rightarrow> MongooseCache"
  next_addr :: nat
  global_mongoose :: "nat option"
  promises :: "nat \<Rightarrow> promise_obj"
  next_promise :: nat
  connect_calls :: "(string \<times> ConnectOptions) list"
  modules :: "(js_error + module_instance) list"
  frames :: "(module_instance \<times> frame_status) list"

text \<open>A fresh process: nothing allocated, \<^verbatim>\<open>global.mongoose\<close> undefined, the module
  not yet evaluated, \<^verbatim>\<open>mongoose.connect\<close> never invoked.\<close>

definition process_start :: world where
  "process_start =
     \<lparr>heap = (\<lambda>_. \<lparr>conn = None, promise = None\<rparr>), next_addr = 0,
      global_mongoose = None,
      promises = (\<lambda>_. \<lparr>chained_on = None, pstate = Pending\<rparr>), next_promise = 0,
      connect_calls = [], modules = [], frames = []\<rparr>"

subsection \<open>Module evaluation (lines 8 to 49)\<close>

definition config_error :: js_error where
  "config_error =
     Error ''Invalid configuration: MONGODB_URI environment variable is not set''"

text \<open>\<^verbatim>\<open>{ conn: null, promise: null }\<close>, allocated at a fresh address.\<close>

definition new_cache :: "world \<Rightarrow> nat \<times> world" where
  "new_cache w =
     (next_addr w,
      w\<lparr>heap := (heap w)(next_addr w := \<lparr>conn = None, promise = None\<rparr>),
        next_addr := Suc (next_addr w)\<rparr>)"

text \<open>
  \<^verbatim>\<open>const MONGODB_URI = process.env.MONGO_URI;\<close>
  \<^verbatim>\<open>if (!MONGODB_URI) throw new Error(...)\<close>: the test is JavaScript truthiness, which
  \<^verbatim>\<open>undefined\<close> and the empty string both fail. The variable read is
  \<^verbatim>\<open>MONGO_URI\<close>; \<^verbatim>\<open>MONGODB_URI\<close> is the name of the constant and the name in the
  error message.
  \<^verbatim>\<open>const cached = globalForMongoose.mongoose ?? { conn: null, promise: null };\<close>
  \<^verbatim>\<open>globalForMongoose.mongoose = cached;\<close>
  The result is the thrown error or the bindings of the evaluated module, and the world
  after the evaluation.
\<close>

definition module_init :: "env \<Rightarrow> world \<Rightarrow> (js_error + module_instance) \<times> world" where
  "module_init e w =
     (case e ''MONGO_URI'' of
        None \<Rightarrow> (Inl config_error, w)
      | Some uri \<Rightarrow>
          if uri = [] then (Inl config_error, w)
          else
            (case global_mongoose w of
               Some a \<Rightarrow>
                 (Inr \<lparr>MONGODB_URI = uri, cached = a\<rparr>, w\<lparr>global_mongoose := Some a\<rparr>)
             | None \<Rightarrow>
                 (let (a, w') = new_cache w
                  in (Inr \<lparr>MONGODB_URI = uri, cached = a\<rparr>,
                      w'\<lparr>global_mongoose := Some a\<rparr>))))"

subsection \<open>The driver and promises\<close>

text \<open>\<^verbatim>\<open>mongoose.connect(uri, options)\<close>: the handshake primitive. Every invocation is
  logged with its arguments and returns a fresh pending promise, which the driver
  settles later.\<close>

definition mongoose_connect :: "string \<Rightarrow> ConnectOptions \<Rightarrow> world \<Rightarrow> nat \<times> world" where
  "mongoose_connect uri opts w =
     (next_promise w,
      w\<lparr>promises := (promises w)(next_promise w := \<lparr>chained_on = None, pstate = Pending\<rparr>),
        next_promise := Suc (next_promise w),
        connect_calls := connect_calls w @ [(uri, opts)]\<rparr>)"

text \<open>\<^verbatim>\<open>p.then(callback)\<close> returns a fresh pending promise chained on \<open>p\<close>.\<close>

definition promise_then :: "nat \<Rightarrow> world \<Rightarrow> nat \<times> world" where
  "promise_then p w =
     (next_promise w,
      w\<lparr>promises := (promises w)(next_promise w := \<lparr>chained_on = Some p, pstate = Pending\<rparr>),
        next_promise := Suc (next_promise w)\<rparr>)"

text \<open>The callback of line 73, \<^verbatim>\<open>(mongooseInstance) => { return mongooseInstance; }\<close>.\<close>

definition then_callback :: "Mongoose \<Rightarrow> Mongoose" where
  "then_callback mongooseInstance = mongooseInstance"

text \<open>The state a chained promise takes once the promise it is chained on has settled:
  the callback's result on fulfilment, the same error on rejection.\<close>

fun chained_state :: "promise_state \<Rightarrow> promise_state" where
  "chained_state Pending = Pending"
| "chained_state (Fulfilled v) = Fulfilled (then_callback v)"
| "chained_state (Rejected e) = Rejected e"

definition set_pstate :: "nat \<Rightarrow> promise_state \<Rightarrow> world \<Rightarrow> world" where
  "set_pstate p s w = w\<lparr>promises := (promises w)(p := (promises w p)\<lparr>pstate := s\<rparr>)\<rparr>"

subsection \<open>\<^verbatim>\<open>connectToDatabase\<close> (lines 59 to 82)\<close>

definition options :: ConnectOptions where
  "options = []"

text \<open>
  The part of a call that runs before control is given up:
  \<^verbatim>\<open>if (cached.conn) return cached.conn;\<close>
  \<^verbatim>\<open>if (!cached.promise) cached.promise = mongoose.connect(MONGODB_URI, options).then(...);\<close>
  and then the operand of \<^verbatim>\<open>await cached.promise\<close> is read and the frame suspends.
\<close>

definition connectToDatabase :: "module_instance \<Rightarrow> world \<Rightarrow> frame_status \<times> world" where
  "connectToDatabase m w =
     (case conn (heap w (cached m)) of
        Some c \<Rightarrow> (Returned c, w)
      | None \<Rightarrow>
          (case promise (heap w (cached m)) of
             Some q \<Rightarrow> (Awaiting q, w)
           | None \<Rightarrow>
               (let (p, w1) = mongoose_connect (MONGODB_URI m) options w;
                    (q, w2) = promise_then p w1;
                    w3 = w2\<lparr>heap := (heap w2)(cached m := (heap w2 (cached m))\<lparr>promise := Some q\<rparr>)\<rparr>
                in (Awaiting q, w3))))"

text \<open>
  The part of a call that runs when the awaited promise has settled with \<open>s\<close>:
  on fulfilment \<^verbatim>\<open>cached.conn = <value>; return cached.conn;\<close> (the field read back
  right after the assignment is the value assigned), on rejection the \<^verbatim>\<open>await\<close>
  throws and the assignment is not executed. A frame is not resumed while the promise is
  pending.
\<close>

fun connectToDatabase_resume ::
  "module_instance \<Rightarrow> promise_state \<Rightarrow> world \<Rightarrow> (frame_status \<times> world) option" where
  "connectToDatabase_resume m Pending w = None"
| "connectToDatabase_resume m (Fulfilled v) w =
     Some (Returned v, w\<lparr>heap := (heap w)(cached m := (heap w (cached m))\<lparr>conn := Some v\<rparr>)\<rparr>)"
| "connectToDatabase_resume m (Rejected e) w = Some (Threw e, w)"

subsection \<open>\<^verbatim>\<open>getMongoNativeConnection\<close> (lines 88 to 94)\<close>

text \<open>\<^verbatim>\<open>if (!cached.conn) return null; return cached.conn.connection;\<close>
  The function is given the world and returns it, so that its effect on the world is
  part of the model.\<close>

definition getMongoNativeConnection ::
  "module_instance \<Rightarrow> world \<Rightarrow> Connection option \<times> world" where
  "getMongoNativeConnection m w =
     (case conn (heap w (cached m)) of
        None \<Rightarrow> (None, w)
      | Some c \<Rightarrow> (Some (connection c), w))"

subsection \<open>The process as a transition system\<close>

datatype event =
    Load env
  | Call nat
  | Settle nat "js_error + Mongoose"
  | ThenJob nat
  | Resume nat
  | GetNative nat

text \<open>
  \<open>Load e\<close>: the module is evaluated (again) under environment \<open>e\<close>; the outcome is
  appended to \<open>modules\<close>.
  \<open>Call i\<close>: some caller invokes \<^verbatim>\<open>connectToDatabase\<close> as exported by the \<open>i\<close>-th
  evaluation; there is nothing to call where that evaluation threw.
  \<open>Settle p r\<close>: the driver settles the still pending handshake promise \<open>p\<close>.
  \<open>ThenJob q\<close>: the reaction job of the chained promise \<open>q\<close> runs once the promise it
  is chained on has settled.
  \<open>Resume f\<close>: the suspended frame \<open>f\<close> continues once the promise it awaits has
  settled.
  \<open>GetNative i\<close>: some caller invokes \<^verbatim>\<open>getMongoNativeConnection\<close>.
  An event that cannot take place in a state yields \<open>None\<close>.
\<close>

fun step :: "event \<Rightarrow> world \<Rightarrow> world option" where
  "step (Load e) w =
     (let (r, w') = module_init e w in Some (w'\<lparr>modules := modules w' @ [r]\<rparr>))"
| "step (Call i) w =
     (if i < length (modules w) then
        (case modules w ! i of
           Inl err \<Rightarrow> None
         | Inr m \<Rightarrow>
             (let (st, w') = connectToDatabase m w
              in Some (w'\<lparr>frames := frames w' @ [(m, st)]\<rparr>)))
      else None)"
| "step (Settle p r) w =
     (if p < next_promise w \<and> chained_on (promises w p) = None
         \<and> pstate (promises w p) = Pending then
        Some (set_pstate p (case r of Inl err \<Rightarrow> Rejected err | Inr v \<Rightarrow> Fulfilled v) w)
      else None)"
| "step (ThenJob q) w =
     (if q < next_promise w \<and> pstate (promises w q) = Pending then
        (case chained_on (promises w q) of
           None \<Rightarrow> None
         | Some p \<Rightarrow>
             (case pstate (promises w p) of
                Pending \<Rightarrow> None
              | s \<Rightarrow> Some (set_pstate q (chained_state s) w)))
      else None)"
| "step (Resume f) w =
     (if f < length (frames w) then
        (case frames w ! f of
           (m, Awaiting p) \<Rightarrow>
             (case connectToDatabase_resume m (pstate (promises w p)) w of
                None \<Rightarrow> None
              | Some (st, w') \<Rightarrow> Some (w'\<lparr>frames := (frames w')[f := (m, st)]\<rparr>))
         | (m, st) \<Rightarrow> None)
      else None)"
| "step (GetNative i) w =
     (if i < length (modules w) then
        (case modules w ! i of
           Inl err \<Rightarrow> None
         | Inr m \<Rightarrow> Some (snd (getMongoNativeConnection m w)))
      else None)"

fun run :: "event list \<Rightarrow> world \<Rightarrow> world option" where
  "run [] w = Some w"
| "run (ev # evs) w = (case step ev w of None \<Rightarrow> None | Some w' \<Rightarrow> run evs w')"

subsection \<open>The invariant of reachable states\<close>

text \<open>
  In a process started from \<open>process_start\<close> there is one cache record, at address 0;
  every evaluated module and every call frame refers to it. The handshake promise, once
  \<^verbatim>\<open>mongoose.connect\<close> has been invoked, is promise 0 and the promise chained on it, held
  in the cache record, is promise 1.
\<close>

definition module_ok :: "js_error + module_instance \<Rightarrow> bool" where
  "module_ok r = (r = Inl config_error \<or> (\<exists>m. r = Inr m \<and> cached m = 0))"

fun status_ok :: "world \<Rightarrow> frame_status \<Rightarrow> bool" where
  "status_ok w (Awaiting p) = (p = Suc 0)"
| "status_ok w (Returned c) = (pstate (promises w (Suc 0)) = Fulfilled c \<and> conn (heap w 0) = Some c)"
| "status_ok w (Threw err) = (pstate (promises w (Suc 0)) = Rejected err)"

definition frame_ok :: "world \<Rightarrow> module_instance \<times> frame_status \<Rightarrow> bool" where
  "frame_ok w f = (cached (fst f) = 0 \<and> status_ok w (snd f))"

definition global_ok :: "world \<Rightarrow> bool" where
  "global_ok w =
     ((global_mongoose w = None \<and> next_addr w = 0 \<and> list_all isl (modules w) \<and>
       promise (heap w 0) = None)
      \<or> (global_mongoose w = Some 0 \<and> next_addr w = Suc 0))"

definition promise_ok :: "world \<Rightarrow> bool" where
  "promise_ok w =
     ((promise (heap w 0) = None \<and> conn (heap w 0) = None \<and> frames w = [] \<and>
       next_promise w = 0 \<and> connect_calls w = [])
      \<or> (promise (heap w 0) = Some (Suc 0) \<and> next_promise w = Suc (Suc 0) \<and> length (connect_calls w) = Suc 0 \<and>
          chained_on (promises w 0) = None \<and> chained_on (promises w (Suc 0)) = Some 0 \<and>
          (pstate (promises w (Suc 0)) = Pending \<or> pstate (promises w (Suc 0)) = pstate (promises w 0)) \<and>
          (conn (heap w 0) = None
           \<or> (\<exists>c. conn (heap w 0) = Some c \<and> pstate (promises w (Suc 0)) = Fulfilled c \<and>
                  Returned c \<in> snd ` set (frames w)))))"

definition cache_inv :: "world \<Rightarrow> bool" where
  "cache_inv w =
     (list_all module_ok (modules w) \<and> list_all (frame_ok w) (frames w) \<and>
      global_ok w \<and> promise_ok w)"

subsection \<open>A process whose environment lacks the endpoint variable\<close>

text \<open>\<open>loads_without_uri\<close> holds of the events of a run in which every evaluation of the
  module finds \<^verbatim>\<open>MONGO_URI\<close> undefined; \<open>never_loaded\<close> describes the states of such a
  run: no cache record, no frame, no handshake, only failed evaluations.\<close>

fun loads_without_uri :: "event \<Rightarrow> bool" where
  "loads_without_uri (Load e) = (e ''MONGO_URI'' = None)"
| "loads_without_uri ev = True"

definition never_loaded :: "world \<Rightarrow> bool" where
  "never_loaded w =
     (global_mongoose w = None \<and> frames w = [] \<and> connect_calls w = [] \<and> next_promise w = 0 \<and>
      heap w = heap process_start \<and> set (modules w) \<subseteq> {Inl config_error})"

subsection \<open>A process whose handshake was rejected\<close>

text \<open>\<open>poisoned err\<close> describes the reachable states in which the cache record holds its
  promise and the handshake promise is rejected with \<open>err\<close>.\<close>

definition poisoned :: "js_error \<Rightarrow> world \<Rightarrow> bool" where
  "poisoned err w =
     (cache_inv w \<and> promise (heap w 0) = Some (Suc 0) \<and> pstate (promises w 0) = Rejected err)"

subsection \<open>Example inputs\<close>

text \<open>A configured environment, a handle, the module as evaluated under that
  environment in a fresh process, and two runs: one in which the handshake succeeds and
  one in which the driver rejects it.\<close>

definition example_uri :: string where
  "example_uri = ''mongodb://localhost:27017/devevent''"

definition example_env :: env where
  "example_env = [''MONGO_URI'' \<mapsto> example_uri]"

definition example_handle :: Mongoose where
  "example_handle = \<lparr>instance_id = 1, connection = Connection 5\<rparr>"

definition example_module :: module_instance where
  "example_module = \<lparr>MONGODB_URI = example_uri, cached = 0\<rparr>"

definition connected_trace :: "event list" where
  "connected_trace =
     [Load example_env, Call 0, Call 0, Settle 0 (Inr example_handle), ThenJob 1,
      Resume 0, Resume 1, Call 0]"

definition failed_trace :: "event list" where
  "failed_trace =
     [Load example_env, Call 0, Call 0, Settle 0 (Inl (Error ''ECONNREFUSED'')), ThenJob 1,
      Resume 0]"

text \<open>A run up to the rejection of the handshake, and events that follow it.\<close>

definition rejected_trace :: "event list" where
  "rejected_trace =
     [Load example_env, Call 0, Call 0, Settle 0 (Inl (Error ''ECONNREFUSED''))]"

definition after_rejection :: "event list" where
  "after_rejection = [ThenJob 1, Resume 0, Call 0, Resume 2, Resume 1]"

text \<open>The world a run from \<open>process_start\<close> ends in (the start itself, should an event
  of the run not be able to take place).\<close>

definition world_after :: "event list \<Rightarrow> world" where
  "world_after evs = (case run evs process_start of Some w \<Rightarrow> w | None \<Rightarrow> process_start)"

section \<open>Properties\<close>

lemmas example_defs = example_uri_def example_env_def example_handle_def example_module_def
  connected_trace_def failed_trace_def rejected_trace_def after_rejection_def
  world_after_def

lemmas model_defs = process_start_def module_init_def new_cache_def mongoose_connect_def
  promise_then_def connectToDatabase_def set_pstate_def getMongoNativeConnection_def options_def
  then_callback_def config_error_def

subsection \<open>What each event does\<close>

lemma inv_start: "cache_inv process_start"
  by (simp add: cache_inv_def global_ok_def promise_ok_def process_start_def)

lemma status_ok_same:
  "promises w' = promises w \<Longrightarrow> conn (heap w' 0) = conn (heap w 0) \<Longrightarrow>
   status_ok w' st = status_ok w st"
  by (cases st) simp_all

lemma frame_ok_same:
  "promises w' = promises w \<Longrightarrow> conn (heap w' 0) = conn (heap w 0) \<Longrightarrow>
   frame_ok w' = frame_ok w"
  by (rule ext) (simp add: frame_ok_def status_ok_same [of w' w])

lemma promise_ok_same:
  "heap w' 0 = heap w 0 \<Longrightarrow> promises w' = promises w \<Longrightarrow> frames w' = frames w \<Longrightarrow>
   next_promise w' = next_promise w \<Longrightarrow> connect_calls w' = connect_calls w \<Longrightarrow>
   promise_ok w' = promise_ok w"
  by (simp add: promise_ok_def)

lemma Load_err:
  "e ''MONGO_URI'' = None \<or> e ''MONGO_URI'' = Some [] \<Longrightarrow>
   step (Load e) w = Some (w\<lparr>modules := modules w @ [Inl config_error]\<rparr>)"
  by (auto simp: module_init_def)

lemma Load_reuse:
  "e ''MONGO_URI'' = Some u \<Longrightarrow> u \<noteq> [] \<Longrightarrow> global_mongoose w = Some a \<Longrightarrow>
   step (Load e) w =
     Some (w\<lparr>global_mongoose := Some a,
             modules := modules w @ [Inr \<lparr>MONGODB_URI = u, cached = a\<rparr>]\<rparr>)"
  by (simp add: module_init_def)

lemma Load_fresh:
  "e ''MONGO_URI'' = Some u \<Longrightarrow> u \<noteq> [] \<Longrightarrow> global_mongoose w = None \<Longrightarrow>
   step (Load e) w =
     Some (w\<lparr>heap := (heap w)(next_addr w := \<lparr>conn = None, promise = None\<rparr>),
             next_addr := Suc (next_addr w), global_mongoose := Some (next_addr w),
             modules := modules w @ [Inr \<lparr>MONGODB_URI = u, cached = next_addr w\<rparr>]\<rparr>)"
  by (simp add: module_init_def new_cache_def)

lemma Load_shape:
  assumes "step (Load e) w = Some w'"
  shows "w' = w\<lparr>modules := modules w @ [Inl config_error]\<rparr>
       \<or> (\<exists>a u. global_mongoose w = Some a \<and>
             w' = w\<lparr>global_mongoose := Some a,
                    modules := modules w @ [Inr \<lparr>MONGODB_URI = u, cached = a\<rparr>]\<rparr>)
       \<or> (\<exists>u. global_mongoose w = None \<and>
             w' = w\<lparr>heap := (heap w)(next_addr w := \<lparr>conn = None, promise = None\<rparr>),
                    next_addr := Suc (next_addr w), global_mongoose := Some (next_addr w),
                    modules := modules w @ [Inr \<lparr>MONGODB_URI = u, cached = next_addr w\<rparr>]\<rparr>)"
proof (cases "e ''MONGO_URI'' = None \<or> e ''MONGO_URI'' = Some []")
  case True
  from Load_err [of e w] True assms show ?thesis by simp
next
  case False
  then obtain u where u: "e ''MONGO_URI'' = Some u" "u \<noteq> []" by auto
  show ?thesis
  proof (cases "global_mongoose w")
    case None
    from Load_fresh [of e u w] u None assms have
      "w' = w\<lparr>heap := (heap w)(next_addr w := \<lparr>conn = None, promise = None\<rparr>),
                    next_addr := Suc (next_addr w), global_mongoose := Some (next_addr w),
                    modules := modules w @ [Inr \<lparr>MONGODB_URI = u, cached = next_addr w\<rparr>]\<rparr>"
      by simp
    with None show ?thesis by blast
  next
    case (Some a)
    from Load_reuse [of e u w a] u Some assms have
      "w' = w\<lparr>global_mongoose := Some a,
                    modules := modules w @ [Inr \<lparr>MONGODB_URI = u, cached = a\<rparr>]\<rparr>"
      by simp
    with Some show ?thesis by blast
  qed
qed

lemma inv_Load:
  assumes "cache_inv w" and "step (Load e) w = Some w'"
  shows "cache_inv w'"
proof -
  from assms(1) have m: "list_all module_ok (modules w)" and f: "list_all (frame_ok w) (frames w)"
    and g: "global_ok w" and p: "promise_ok w"
    by (simp_all add: cache_inv_def)
  from Load_shape [OF assms(2)] consider
    (err) "w' = w\<lparr>modules := modules w @ [Inl config_error]\<rparr>"
  | (reuse) a u where "global_mongoose w = Some a"
      "w' = w\<lparr>global_mongoose := Some a,
              modules := modules w @ [Inr \<lparr>MONGODB_URI = u, cached = a\<rparr>]\<rparr>"
  | (fresh) u where "global_mongoose w = None"
      "w' = w\<lparr>heap := (heap w)(next_addr w := \<lparr>conn = None, promise = None\<rparr>),
              next_addr := Suc (next_addr w), global_mongoose := Some (next_addr w),
              modules := modules w @ [Inr \<lparr>MONGODB_URI = u, cached = next_addr w\<rparr>]\<rparr>"
    by blast
  then show ?thesis
  proof cases
    case err
    have "frame_ok w' = frame_ok w" by (rule frame_ok_same) (simp_all add: err)
    moreover have "promise_ok w' = promise_ok w" by (rule promise_ok_same) (simp_all add: err)
    moreover have "global_ok w'" using g by (simp add: err global_ok_def)
    ultimately show ?thesis using m f p by (simp add: cache_inv_def err module_ok_def)
  next
    case reuse
    have "frame_ok w' = frame_ok w" by (rule frame_ok_same) (simp_all add: reuse)
    moreover have "promise_ok w' = promise_ok w" by (rule promise_ok_same) (simp_all add: reuse)
    moreover have "global_ok w'" and "a = 0" using g reuse(1) by (simp_all add: reuse(2) global_ok_def)
    ultimately show ?thesis using m f p by (simp add: cache_inv_def reuse(2) module_ok_def)
  next
    case fresh
    from g fresh(1) have n: "next_addr w = 0" and h: "promise (heap w 0) = None"
      by (simp_all add: global_ok_def)
    from p h have c: "conn (heap w 0) = None" and fr: "frames w = []"
      and np: "next_promise w = 0" and cc: "connect_calls w = []"
      by (simp_all add: promise_ok_def)
    have "promise_ok w'" by (simp add: fresh(2) promise_ok_def n fr np cc)
    moreover have "global_ok w'" by (simp add: fresh(2) global_ok_def n)
    ultimately show ?thesis using m by (simp add: cache_inv_def fresh(2) module_ok_def fr n)
  qed
qed

lemma Call_cached:
  "i < length (modules w) \<Longrightarrow> modules w ! i = Inr m \<Longrightarrow> conn (heap w (cached m)) = Some c \<Longrightarrow>
   step (Call i) w = Some (w\<lparr>frames := frames w @ [(m, Returned c)]\<rparr>)"
  by (simp add: connectToDatabase_def)

lemma Call_pending:
  "i < length (modules w) \<Longrightarrow> modules w ! i = Inr m \<Longrightarrow> conn (heap w (cached m)) = None \<Longrightarrow>
   promise (heap w (cached m)) = Some q \<Longrightarrow>
   step (Call i) w = Some (w\<lparr>frames := frames w @ [(m, Awaiting q)]\<rparr>)"
  by (simp add: connectToDatabase_def)

lemma Call_first:
  "i < length (modules w) \<Longrightarrow> modules w ! i = Inr m \<Longrightarrow> conn (heap w (cached m)) = None \<Longrightarrow>
   promise (heap w (cached m)) = None \<Longrightarrow>
   step (Call i) w =
     Some (w\<lparr>heap := (heap w)(cached m := (heap w (cached m))\<lparr>promise := Some (Suc (next_promise w))\<rparr>),
             promises := ((promises w)(next_promise w := \<lparr>chained_on = None, pstate = Pending\<rparr>))
                           (Suc (next_promise w) :=
                              \<lparr>chained_on = Some (next_promise w), pstate = Pending\<rparr>),
             next_promise := Suc (Suc (next_promise w)),
             connect_calls := connect_calls w @ [(MONGODB_URI m, options)],
             frames := frames w @ [(m, Awaiting (Suc (next_promise w)))]\<rparr>)"
  by (simp add: connectToDatabase_def mongoose_connect_def promise_then_def)

lemma Call_enabled:
  "step (Call i) w = Some w' \<Longrightarrow> i < length (modules w) \<and> (\<exists>m. modules w ! i = Inr m)"
  by (auto split: if_splits sum.splits)

lemma Settle_shape:
  "step (Settle p r) w = Some w' \<Longrightarrow>
   p < next_promise w \<and> chained_on (promises w p) = None \<and> pstate (promises w p) = Pending \<and>
   w' = set_pstate p (case r of Inl err \<Rightarrow> Rejected err | Inr v \<Rightarrow> Fulfilled v) w"
  by (simp split: if_splits)

lemma ThenJob_shape:
  "step (ThenJob q) w = Some w' \<Longrightarrow>
   q < next_promise w \<and> pstate (promises w q) = Pending \<and>
   (\<exists>p. chained_on (promises w q) = Some p \<and> pstate (promises w p) \<noteq> Pending \<and>
        w' = set_pstate q (chained_state (pstate (promises w p))) w)"
  by (auto split: if_splits option.splits promise_state.splits)

lemma Resume_shape:
  "step (Resume f) w = Some w' \<Longrightarrow>
   f < length (frames w) \<and>
   (\<exists>m p. frames w ! f = (m, Awaiting p) \<and>
      ((\<exists>v. pstate (promises w p) = Fulfilled v \<and>
            w' = w\<lparr>heap := (heap w)(cached m := (heap w (cached m))\<lparr>conn := Some v\<rparr>),
                   frames := (frames w)[f := (m, Returned v)]\<rparr>)
       \<or> (\<exists>err. pstate (promises w p) = Rejected err \<and>
            w' = w\<lparr>frames := (frames w)[f := (m, Threw err)]\<rparr>)))"
  apply (simp split: if_splits prod.splits frame_status.splits option.splits)
  apply (cases "pstate (promises w (case snd (frames w ! f) of Awaiting p \<Rightarrow> p | _ \<Rightarrow> 0))")
  apply auto
  done

lemma GetNative_shape: "step (GetNative i) w = Some w' \<Longrightarrow> w' = w"
  by (simp add: getMongoNativeConnection_def split: if_splits sum.splits option.splits)

lemma inv_parts:
  "cache_inv w \<Longrightarrow> list_all module_ok (modules w)"
  "cache_inv w \<Longrightarrow> list_all (frame_ok w) (frames w)"
  "cache_inv w \<Longrightarrow> global_ok w"
  "cache_inv w \<Longrightarrow> promise_ok w"
  by (simp_all add: cache_inv_def)

lemma loaded_cached:
  "cache_inv w \<Longrightarrow> i < length (modules w) \<Longrightarrow> modules w ! i = Inr m \<Longrightarrow> cached m = 0"
  by (auto simp: cache_inv_def module_ok_def list_all_length)

lemma inv_GetNative: "cache_inv w \<Longrightarrow> step (GetNative i) w = Some w' \<Longrightarrow> cache_inv w'"
  by (drule GetNative_shape) simp

lemma inv_Call:
  assumes inv: "cache_inv w" and st: "step (Call i) w = Some w'"
  shows "cache_inv w'"
proof -
  from Call_enabled [OF st] obtain m where i: "i < length (modules w)" and m: "modules w ! i = Inr m"
    by blast
  from loaded_cached [OF inv i m] have c0: "cached m = 0" .
  note ms = inv_parts(1) [OF inv] and fs = inv_parts(2) [OF inv]
    and g = inv_parts(3) [OF inv] and p = inv_parts(4) [OF inv]
  show ?thesis
  proof (cases "conn (heap w 0)")
    case (Some c)
    from Call_cached [OF i m, of c] Some c0 st
    have w': "w' = w\<lparr>frames := frames w @ [(m, Returned c)]\<rparr>" by simp
    from p Some have q: "pstate (promises w (Suc 0)) = Fulfilled c"
      by (auto simp: promise_ok_def)
    have "frame_ok w' = frame_ok w" by (rule frame_ok_same) (simp_all add: w')
    moreover have "frame_ok w (m, Returned c)" by (simp add: frame_ok_def c0 q Some)
    moreover have "global_ok w'" using g by (simp add: w' global_ok_def)
    moreover have "promise_ok w'" using p Some by (auto simp: w' promise_ok_def)
    ultimately show ?thesis using ms fs by (simp add: cache_inv_def w')
  next
    case None
    show ?thesis
    proof (cases "promise (heap w 0)")
      case (Some q)
      from Call_pending [OF i m, of q] None Some c0 st
      have w': "w' = w\<lparr>frames := frames w @ [(m, Awaiting q)]\<rparr>" by simp
      from p Some have q: "q = Suc 0" by (simp add: promise_ok_def)
      have "frame_ok w' = frame_ok w" by (rule frame_ok_same) (simp_all add: w')
      moreover have "frame_ok w (m, Awaiting q)" by (simp add: frame_ok_def c0 q)
      moreover have "global_ok w'" using g by (simp add: w' global_ok_def)
      moreover have "promise_ok w'" using p Some None by (simp add: w' promise_ok_def)
      ultimately show ?thesis using ms fs by (simp add: cache_inv_def w')
    next
      case pn: None
      from p pn have fr: "frames w = []" and np: "next_promise w = 0" and cc: "connect_calls w = []"
        by (simp_all add: promise_ok_def)
      from Call_first [OF i m] None pn c0 st
      have w': "w' = w\<lparr>heap := (heap w)(0 := (heap w 0)\<lparr>promise := Some (Suc 0)\<rparr>),
             promises := ((promises w)(0 := \<lparr>chained_on = None, pstate = Pending\<rparr>))
                           (Suc 0 := \<lparr>chained_on = Some 0, pstate = Pending\<rparr>),
             next_promise := Suc (Suc 0),
             connect_calls := [(MONGODB_URI m, options)],
             frames := [(m, Awaiting (Suc 0))]\<rparr>"
        by (simp add: fr np cc)
      have "frame_ok w' (m, Awaiting (Suc 0))" by (simp add: frame_ok_def c0)
      moreover have "global_ok w'"
      proof -
        have "global_mongoose w = Some 0"
          using g i m by (auto simp: global_ok_def list_all_length)
        with g show ?thesis by (simp add: w' global_ok_def)
      qed
      moreover have "promise_ok w'" using None by (simp add: w' promise_ok_def)
      ultimately show ?thesis using ms by (simp add: cache_inv_def w')
    qed
  qed
qed

lemma promise_ok_allocated:
  "promise_ok w \<Longrightarrow> 0 < next_promise w \<Longrightarrow>
   promise (heap w 0) = Some (Suc 0) \<and> next_promise w = Suc (Suc 0) \<and>
   length (connect_calls w) = Suc 0 \<and>
   chained_on (promises w 0) = None \<and> chained_on (promises w (Suc 0)) = Some 0 \<and>
   (pstate (promises w (Suc 0)) = Pending \<or> pstate (promises w (Suc 0)) = pstate (promises w 0)) \<and>
   (conn (heap w 0) = None
    \<or> (\<exists>c. conn (heap w 0) = Some c \<and> pstate (promises w (Suc 0)) = Fulfilled c \<and>
           Returned c \<in> snd ` set (frames w)))"
  by (auto simp: promise_ok_def)

lemma promise_ok_framed:
  "promise_ok w \<Longrightarrow> frames w \<noteq> [] \<Longrightarrow> 0 < next_promise w"
  by (auto simp: promise_ok_def)

lemma status_pending:
  "status_ok w st \<Longrightarrow> pstate (promises w (Suc 0)) = Pending \<Longrightarrow> st = Awaiting (Suc 0)"
  by (cases st) simp_all

lemma inv_Settle:
  assumes inv: "cache_inv w" and st: "step (Settle p r) w = Some w'"
  shows "cache_inv w'"
proof -
  note ms = inv_parts(1) [OF inv] and fs = inv_parts(2) [OF inv]
    and g = inv_parts(3) [OF inv] and pk = inv_parts(4) [OF inv]
  define s where "s = (case r of Inl err \<Rightarrow> Rejected err | Inr v \<Rightarrow> Fulfilled v)"
  from Settle_shape [OF st] have lt: "p < next_promise w" and ch: "chained_on (promises w p) = None"
    and pend: "pstate (promises w p) = Pending" and w': "w' = set_pstate p s w"
    by (simp_all add: s_def)
  from lt have "0 < next_promise w" by simp
  note a = promise_ok_allocated [OF pk this]
  from a lt have "p = 0 \<or> p = Suc 0" by auto
  with a ch have p0: "p = 0" by auto
  with a pend have qp: "pstate (promises w (Suc 0)) = Pending" by auto
  have same: "promises w' (Suc 0) = promises w (Suc 0)" "heap w' = heap w" "frames w' = frames w"
    "modules w' = modules w" "global_mongoose w' = global_mongoose w" "next_addr w' = next_addr w"
    "next_promise w' = next_promise w" "connect_calls w' = connect_calls w"
    "chained_on (promises w' 0) = chained_on (promises w 0)"
    by (simp_all add: w' set_pstate_def p0)
  have "frame_ok w' = frame_ok w"
  proof (rule ext)
    fix f show "frame_ok w' f = frame_ok w f"
      by (cases "snd f") (simp_all add: frame_ok_def same)
  qed
  moreover have "global_ok w'" using g by (simp add: global_ok_def same)
  moreover have "promise_ok w'" using a qp by (auto simp: promise_ok_def same)
  ultimately show ?thesis using ms fs by (simp add: cache_inv_def same)
qed

lemma inv_ThenJob:
  assumes inv: "cache_inv w" and st: "step (ThenJob q) w = Some w'"
  shows "cache_inv w'"
proof -
  note ms = inv_parts(1) [OF inv] and fs = inv_parts(2) [OF inv]
    and g = inv_parts(3) [OF inv] and pk = inv_parts(4) [OF inv]
  from ThenJob_shape [OF st] obtain p where lt: "q < next_promise w"
    and pend: "pstate (promises w q) = Pending" and ch: "chained_on (promises w q) = Some p"
    and settled: "pstate (promises w p) \<noteq> Pending"
    and w': "w' = set_pstate q (chained_state (pstate (promises w p))) w"
    by blast
  from lt have "0 < next_promise w" by simp
  note a = promise_ok_allocated [OF pk this]
  from a lt have "q = 0 \<or> q = Suc 0" by auto
  with a ch have q1: "q = Suc 0" and p0: "p = 0" by auto
  have cs: "chained_state (pstate (promises w 0)) = pstate (promises w 0)"
    by (cases "pstate (promises w 0)") (simp_all add: then_callback_def)
  from a pend q1 have cn: "conn (heap w 0) = None" by auto
  have same: "pstate (promises w' (Suc 0)) = pstate (promises w 0)"
    "promises w' 0 = promises w 0" "chained_on (promises w' (Suc 0)) = chained_on (promises w (Suc 0))"
    "heap w' = heap w" "frames w' = frames w"
    "modules w' = modules w" "global_mongoose w' = global_mongoose w" "next_addr w' = next_addr w"
    "next_promise w' = next_promise w" "connect_calls w' = connect_calls w"
    by (simp_all add: w' set_pstate_def p0 q1 cs)
  have "list_all (frame_ok w') (frames w)"
    unfolding list_all_iff
  proof
    fix f assume "f \<in> set (frames w)"
    with fs have "frame_ok w f" by (simp add: list_all_iff)
    then have "cached (fst f) = 0" and "status_ok w (snd f)" by (simp_all add: frame_ok_def)
    from status_pending [OF this(2)] pend q1 have "snd f = Awaiting (Suc 0)" by simp
    with \<open>cached (fst f) = 0\<close> show "frame_ok w' f" by (simp add: frame_ok_def)
  qed
  moreover have "global_ok w'" using g by (simp add: global_ok_def same)
  moreover have "promise_ok w'" using a cn by (simp add: promise_ok_def same)
  ultimately show ?thesis using ms by (simp add: cache_inv_def same)
qed

lemma status_fulfilled:
  "status_ok w st \<Longrightarrow> pstate (promises w (Suc 0)) = Fulfilled v \<Longrightarrow>
   st = Awaiting (Suc 0) \<or> st = Returned v"
  by (cases st) simp_all

lemma status_rejected:
  "status_ok w st \<Longrightarrow> pstate (promises w (Suc 0)) = Rejected err \<Longrightarrow>
   st = Awaiting (Suc 0) \<or> st = Threw err"
  by (cases st) simp_all

lemma inv_Resume:
  assumes inv: "cache_inv w" and st: "step (Resume f) w = Some w'"
  shows "cache_inv w'"
proof -
  note ms = inv_parts(1) [OF inv] and fs = inv_parts(2) [OF inv]
    and g = inv_parts(3) [OF inv] and pk = inv_parts(4) [OF inv]
  from Resume_shape [OF st] obtain m p where lt: "f < length (frames w)"
    and fr: "frames w ! f = (m, Awaiting p)"
    and sh: "(\<exists>v. pstate (promises w p) = Fulfilled v \<and>
            w' = w\<lparr>heap := (heap w)(cached m := (heap w (cached m))\<lparr>conn := Some v\<rparr>),
                   frames := (frames w)[f := (m, Returned v)]\<rparr>)
       \<or> (\<exists>err. pstate (promises w p) = Rejected err \<and>
            w' = w\<lparr>frames := (frames w)[f := (m, Threw err)]\<rparr>)"
    by blast
  from fs lt fr have "frame_ok w (m, Awaiting p)" by (auto simp: list_all_length)
  then have c0: "cached m = 0" and p1: "p = Suc 0" by (simp_all add: frame_ok_def)
  from lt have "frames w \<noteq> []" by auto
  note a = promise_ok_allocated [OF pk promise_ok_framed [OF pk this]]
  from sh show ?thesis
  proof (elim disjE exE conjE)
    fix v assume q: "pstate (promises w p) = Fulfilled v"
      and w': "w' = w\<lparr>heap := (heap w)(cached m := (heap w (cached m))\<lparr>conn := Some v\<rparr>),
                   frames := (frames w)[f := (m, Returned v)]\<rparr>"
    have same: "promises w' = promises w" "conn (heap w' 0) = Some v"
      "promise (heap w' 0) = promise (heap w 0)"
      "frames w' = (frames w)[f := (m, Returned v)]"
      "modules w' = modules w" "global_mongoose w' = global_mongoose w" "next_addr w' = next_addr w"
      "next_promise w' = next_promise w" "connect_calls w' = connect_calls w"
      by (simp_all add: w' c0)
    have each: "frame_ok w' x" if "frame_ok w x" for x
    proof -
      from that have "cached (fst x) = 0" and "status_ok w (snd x)" by (simp_all add: frame_ok_def)
      from status_fulfilled [OF this(2)] q p1
      have "snd x = Awaiting (Suc 0) \<or> snd x = Returned v" by simp
      with \<open>cached (fst x) = 0\<close> q p1 show ?thesis by (auto simp: frame_ok_def same)
    qed
    have "frame_ok w' (m, Returned v)" using q p1 by (simp add: frame_ok_def same c0)
    with fs each have "list_all (frame_ok w') (frames w')"
      by (auto simp: same list_all_iff dest: set_update_subset_insert [THEN subsetD])
    moreover have "global_ok w'" using g by (simp add: global_ok_def same)
    moreover have "(m, Returned v) \<in> set (frames w')" using lt by (simp add: same set_update_memI)
    then have "Returned v \<in> snd ` set (frames w')" by force
    with a q p1 have "promise_ok w'" by (simp add: promise_ok_def same(1,2,3,5-))
    ultimately show ?thesis using ms by (simp add: cache_inv_def same(5))
  next
    fix err assume q: "pstate (promises w p) = Rejected err"
      and w': "w' = w\<lparr>frames := (frames w)[f := (m, Threw err)]\<rparr>"
    have same: "promises w' = promises w" "heap w' = heap w"
      "frames w' = (frames w)[f := (m, Threw err)]"
      "modules w' = modules w" "global_mongoose w' = global_mongoose w" "next_addr w' = next_addr w"
      "next_promise w' = next_promise w" "connect_calls w' = connect_calls w"
      by (simp_all add: w')
    from a q p1 have cn: "conn (heap w 0) = None" by auto
    have fo: "frame_ok w' = frame_ok w" by (rule frame_ok_same) (simp_all add: same)
    have "frame_ok w (m, Threw err)" using q p1 by (simp add: frame_ok_def c0)
    with fs have "list_all (frame_ok w') (frames w')"
      by (auto simp: fo same list_all_iff dest: set_update_subset_insert [THEN subsetD])
    moreover have "global_ok w'" using g by (simp add: global_ok_def same)
    moreover have "promise_ok w'" using a cn by (simp add: promise_ok_def same)
    ultimately show ?thesis using ms by (simp add: cache_inv_def same)
  qed
qed

lemma inv_step: "cache_inv w \<Longrightarrow> step ev w = Some w' \<Longrightarrow> cache_inv w'"
  by (cases ev) (blast intro: inv_Load inv_Call inv_Settle inv_ThenJob inv_Resume inv_GetNative)+

lemma inv_run: "cache_inv w \<Longrightarrow> run evs w = Some w' \<Longrightarrow> cache_inv w'"
proof (induction evs arbitrary: w)
  case Nil
  then show ?case by simp
next
  case (Cons ev evs)
  from Cons.prems(2) obtain w1 where s: "step ev w = Some w1" and r: "run evs w1 = Some w'"
    by (auto split: option.splits)
  from Cons.IH [OF inv_step [OF Cons.prems(1) s] r] show ?case .
qed

lemma reachable_inv: "run evs process_start = Some w \<Longrightarrow> cache_inv w"
  by (rule inv_run [OF inv_start])

subsection \<open>Consequences of the invariant\<close>

lemma inv_handshakes: "cache_inv w \<Longrightarrow> length (connect_calls w) \<le> 1"
  by (auto simp: cache_inv_def promise_ok_def)

lemma inv_returned:
  "cache_inv w \<Longrightarrow> x \<in> set (frames w) \<Longrightarrow> snd x = Returned c \<Longrightarrow>
   pstate (promises w (Suc 0)) = Fulfilled c \<and> conn (heap w 0) = Some c"
  by (auto simp: cache_inv_def list_all_iff frame_ok_def)

lemma inv_conn_returned:
  "cache_inv w \<Longrightarrow> conn (heap w 0) = Some c \<Longrightarrow> Returned c \<in> snd ` set (frames w)"
  by (auto simp: cache_inv_def promise_ok_def)

lemma Resume_rejected:
  "f < length (frames w) \<Longrightarrow> frames w ! f = (m, Awaiting p) \<Longrightarrow>
   pstate (promises w p) = Rejected err \<Longrightarrow>
   step (Resume f) w = Some (w\<lparr>frames := (frames w)[f := (m, Threw err)]\<rparr>)"
  by simp

lemma Resume_fulfilled:
  "f < length (frames w) \<Longrightarrow> frames w ! f = (m, Awaiting p) \<Longrightarrow>
   pstate (promises w p) = Fulfilled v \<Longrightarrow>
   step (Resume f) w =
     Some (w\<lparr>heap := (heap w)(cached m := (heap w (cached m))\<lparr>conn := Some v\<rparr>),
             frames := (frames w)[f := (m, Returned v)]\<rparr>)"
  by simp

lemma inv_rejected_no_conn:
  "cache_inv w \<Longrightarrow> pstate (promises w (Suc 0)) = Rejected err \<Longrightarrow> conn (heap w 0) = None"
  by (auto simp: cache_inv_def promise_ok_def)

lemma inv_awaiting:
  "cache_inv w \<Longrightarrow> f < length (frames w) \<Longrightarrow> frames w ! f = (m, Awaiting p) \<Longrightarrow>
   cached m = 0 \<and> p = Suc 0"
  by (auto simp: cache_inv_def list_all_length frame_ok_def)

lemma inv_global_loaded:
  "cache_inv w \<Longrightarrow> i < length (modules w) \<Longrightarrow> modules w ! i = Inr m \<Longrightarrow>
   global_mongoose w = Some (cached m)"
  by (auto simp: cache_inv_def global_ok_def module_ok_def list_all_length)

lemma inv_returned_handshake:
  assumes inv: "cache_inv w" and x: "x \<in> set (frames w)" and r: "snd x = Returned c"
  shows "length (connect_calls w) = 1 \<and> chained_on (promises w 0) = None \<and>
         pstate (promises w 0) = Fulfilled c \<and> conn (heap w (cached (fst x))) = Some c"
proof -
  from inv have pk: "promise_ok w" and fs: "list_all (frame_ok w) (frames w)"
    by (simp_all add: cache_inv_def)
  from x have "frames w \<noteq> []" by auto
  note a = promise_ok_allocated [OF pk promise_ok_framed [OF pk this]]
  from inv_returned [OF inv x r] have q: "pstate (promises w (Suc 0)) = Fulfilled c"
    and cn: "conn (heap w 0) = Some c" by simp_all
  from a q have "pstate (promises w 0) = Fulfilled c" by auto
  moreover from fs x have "cached (fst x) = 0" by (simp add: list_all_iff frame_ok_def)
  ultimately show ?thesis using a cn by simp
qed

subsection \<open>What a step keeps\<close>

lemma Call_shape:
  assumes "step (Call i) w = Some w'"
  shows "\<exists>m. i < length (modules w) \<and> modules w ! i = Inr m \<and>
     ((\<exists>c. conn (heap w (cached m)) = Some c \<and> w' = w\<lparr>frames := frames w @ [(m, Returned c)]\<rparr>)
      \<or> (\<exists>q. conn (heap w (cached m)) = None \<and> promise (heap w (cached m)) = Some q \<and>
             w' = w\<lparr>frames := frames w @ [(m, Awaiting q)]\<rparr>)
      \<or> (conn (heap w (cached m)) = None \<and> promise (heap w (cached m)) = None \<and>
          w' = w\<lparr>heap := (heap w)(cached m := (heap w (cached m))\<lparr>promise := Some (Suc (next_promise w))\<rparr>),
             promises := ((promises w)(next_promise w := \<lparr>chained_on = None, pstate = Pending\<rparr>))
                           (Suc (next_promise w) :=
                              \<lparr>chained_on = Some (next_promise w), pstate = Pending\<rparr>),
             next_promise := Suc (Suc (next_promise w)),
             connect_calls := connect_calls w @ [(MONGODB_URI m, options)],
             frames := frames w @ [(m, Awaiting (Suc (next_promise w)))]\<rparr>))"
proof -
  from Call_enabled [OF assms] obtain m where i: "i < length (modules w)" and m: "modules w ! i = Inr m"
    by blast
  show ?thesis
  proof (cases "conn (heap w (cached m))")
    case (Some c)
    from Call_cached [OF i m Some] assms have "w' = w\<lparr>frames := frames w @ [(m, Returned c)]\<rparr>"
      by simp
    with i m Some show ?thesis by blast
  next
    case None
    show ?thesis
    proof (cases "promise (heap w (cached m))")
      case (Some q)
      from Call_pending [OF i m None Some] assms
      have "w' = w\<lparr>frames := frames w @ [(m, Awaiting q)]\<rparr>" by simp
      with i m None Some show ?thesis by blast
    next
      case pn: None
      from Call_first [OF i m None pn] assms
      have "w' = w\<lparr>heap := (heap w)(cached m := (heap w (cached m))\<lparr>promise := Some (Suc (next_promise w))\<rparr>),
             promises := ((promises w)(next_promise w := \<lparr>chained_on = None, pstate = Pending\<rparr>))
                           (Suc (next_promise w) :=
                              \<lparr>chained_on = Some (next_promise w), pstate = Pending\<rparr>),
             next_promise := Suc (Suc (next_promise w)),
             connect_calls := connect_calls w @ [(MONGODB_URI m, options)],
             frames := frames w @ [(m, Awaiting (Suc (next_promise w)))]\<rparr>" by simp
      with i m None pn show ?thesis by blast
    qed
  qed
qed

lemma step_next_promise_mono:
  assumes "step ev w = Some w'"
  shows "next_promise w \<le> next_promise w'"
proof (cases ev)
  case (Load e)
  with assms have "step (Load e) w = Some w'" by simp
  from Load_shape [OF this] show ?thesis by auto
next
  case (Call i)
  with assms have "step (Call i) w = Some w'" by simp
  from Call_shape [OF this] show ?thesis by auto
next
  case (Settle p r)
  with assms have "step (Settle p r) w = Some w'" by simp
  from Settle_shape [OF this] show ?thesis by (simp add: set_pstate_def)
next
  case (ThenJob q)
  with assms have "step (ThenJob q) w = Some w'" by simp
  from ThenJob_shape [OF this] show ?thesis by (auto simp: set_pstate_def)
next
  case (Resume f)
  with assms have "step (Resume f) w = Some w'" by simp
  from Resume_shape [OF this] show ?thesis by auto
next
  case (GetNative i)
  with assms have "step (GetNative i) w = Some w'" by simp
  from GetNative_shape [OF this] show ?thesis by simp
qed

lemma step_modules_grow:
  assumes "step ev w = Some w'"
  shows "\<exists>ms. modules w' = modules w @ ms"
proof (cases ev)
  case (Load e)
  with assms have "step (Load e) w = Some w'" by simp
  from Load_shape [OF this] show ?thesis by auto
next
  case (Call i)
  with assms have "step (Call i) w = Some w'" by simp
  from Call_shape [OF this] show ?thesis by auto
next
  case (Settle p r)
  with assms have "step (Settle p r) w = Some w'" by simp
  from Settle_shape [OF this] show ?thesis by (simp add: set_pstate_def)
next
  case (ThenJob q)
  with assms have "step (ThenJob q) w = Some w'" by simp
  from ThenJob_shape [OF this] show ?thesis by (auto simp: set_pstate_def)
next
  case (Resume f)
  with assms have "step (Resume f) w = Some w'" by simp
  from Resume_shape [OF this] show ?thesis by auto
next
  case (GetNative i)
  with assms have "step (GetNative i) w = Some w'" by simp
  from GetNative_shape [OF this] show ?thesis by simp
qed

lemma step_returned_stays:
  assumes st: "step ev w = Some w'" and r: "Returned c \<in> snd ` set (frames w)"
  shows "Returned c \<in> snd ` set (frames w')"
proof (cases ev)
  case (Load e)
  with st have "step (Load e) w = Some w'" by simp
  from Load_shape [OF this] have "frames w' = frames w" by auto
  with r show ?thesis by simp
next
  case (Call i)
  with st have "step (Call i) w = Some w'" by simp
  from Call_shape [OF this] obtain x where "frames w' = frames w @ [x]" by auto
  with r show ?thesis by auto
next
  case (Settle p r)
  with st have "step (Settle p r) w = Some w'" by simp
  from Settle_shape [OF this] have "frames w' = frames w" by (simp add: set_pstate_def)
  with r show ?thesis by simp
next
  case (ThenJob q)
  with st have "step (ThenJob q) w = Some w'" by simp
  from ThenJob_shape [OF this] have "frames w' = frames w" by (auto simp: set_pstate_def)
  with r show ?thesis by simp
next
  case (Resume f)
  with st have "step (Resume f) w = Some w'" by simp
  from Resume_shape [OF this] obtain m p x where f: "f < length (frames w)"
    and a: "frames w ! f = (m, Awaiting p)" and w': "frames w' = (frames w)[f := x]"
    by auto
  from r obtain g where g: "g < length (frames w)" and gr: "snd (frames w ! g) = Returned c"
    by (auto simp: in_set_conv_nth)
  with a have "g \<noteq> f" by auto
  with g gr have "g < length (frames w')" "snd (frames w' ! g) = Returned c" by (simp_all add: w')
  then show ?thesis by (metis image_eqI nth_mem)
next
  case (GetNative i)
  with st have "step (GetNative i) w = Some w'" by simp
  from GetNative_shape [OF this] r show ?thesis by simp
qed

lemma inv_conn_fulfilled:
  "cache_inv w \<Longrightarrow> conn (heap w 0) = Some c \<Longrightarrow>
   promise (heap w 0) = Some (Suc 0) \<and> pstate (promises w (Suc 0)) = Fulfilled c"
  by (auto simp: cache_inv_def promise_ok_def)

lemma inv_promise_set:
  "cache_inv w \<Longrightarrow> promise (heap w 0) = Some q \<Longrightarrow> q = Suc 0 \<and> next_promise w = Suc (Suc 0)"
  by (auto simp: cache_inv_def promise_ok_def)

lemma inv_promise_allocated:
  "cache_inv w \<Longrightarrow> 0 < next_promise w \<Longrightarrow> promise (heap w 0) = Some (Suc 0)"
  by (auto simp: cache_inv_def promise_ok_def)

subsection \<open>Runs without the endpoint variable\<close>

lemma never_loaded_step:
  assumes n: "never_loaded w" and l: "loads_without_uri ev" and st: "step ev w = Some w'"
  shows "never_loaded w'"
proof (cases ev)
  case (Load e)
  with l have "e ''MONGO_URI'' = None" by simp
  from Load_err [of e w] this
  have "step (Load e) w = Some (w\<lparr>modules := modules w @ [Inl config_error]\<rparr>)" by simp
  with st Load have "w' = w\<lparr>modules := modules w @ [Inl config_error]\<rparr>" by simp
  with n show ?thesis by (simp add: never_loaded_def)
next
  case (Call i)
  from st Call have "step (Call i) w = Some w'" by simp
  from Call_enabled [OF this] obtain m where "i < length (modules w)" "modules w ! i = Inr m"
    by blast
  then have "Inr m \<in> set (modules w)" by (metis nth_mem)
  with n show ?thesis by (auto simp: never_loaded_def)
next
  case (Settle p r)
  from st Settle have "step (Settle p r) w = Some w'" by simp
  from Settle_shape [OF this] have "p < next_promise w" by simp
  with n show ?thesis by (simp add: never_loaded_def)
next
  case (ThenJob q)
  from st ThenJob have "step (ThenJob q) w = Some w'" by simp
  from ThenJob_shape [OF this] have "q < next_promise w" by simp
  with n show ?thesis by (simp add: never_loaded_def)
next
  case (Resume f)
  from st Resume have "step (Resume f) w = Some w'" by simp
  from Resume_shape [OF this] have "f < length (frames w)" by simp
  with n show ?thesis by (simp add: never_loaded_def)
next
  case (GetNative i)
  from st GetNative have "step (GetNative i) w = Some w'" by simp
  from GetNative_shape [OF this] n show ?thesis by simp
qed

lemma never_loaded_run:
  "never_loaded w \<Longrightarrow> list_all loads_without_uri evs \<Longrightarrow> run evs w = Some w' \<Longrightarrow> never_loaded w'"
proof (induction evs arbitrary: w)
  case Nil
  then show ?case by simp
next
  case (Cons ev evs)
  from Cons.prems(3) obtain w1 where s: "step ev w = Some w1" and r: "run evs w1 = Some w'"
    by (auto split: option.splits)
  from Cons.prems(2) have l: "loads_without_uri ev" and ls: "list_all loads_without_uri evs"
    by simp_all
  from Cons.IH [OF never_loaded_step [OF Cons.prems(1) l s] ls r] show ?case .
qed

subsection \<open>After a rejected handshake\<close>

lemma inv_chain:
  "cache_inv w \<Longrightarrow> promise (heap w 0) = Some (Suc 0) \<Longrightarrow>
   next_promise w = Suc (Suc 0) \<and> chained_on (promises w 0) = None \<and>
   chained_on (promises w (Suc 0)) = Some 0 \<and>
   (pstate (promises w (Suc 0)) = Pending \<or> pstate (promises w (Suc 0)) = pstate (promises w 0))"
  by (auto simp: cache_inv_def promise_ok_def)

lemma poisoned_step:
  assumes po: "poisoned err w" and st: "step ev w = Some w'"
  shows "poisoned err w' \<and> connect_calls w' = connect_calls w"
proof -
  from po have inv: "cache_inv w" and pr: "promise (heap w 0) = Some (Suc 0)"
    and rej: "pstate (promises w 0) = Rejected err"
    by (simp_all add: poisoned_def)
  note ch = inv_chain [OF inv pr]
  from inv_step [OF inv st] have inv': "cache_inv w'" .
  from ch step_next_promise_mono [OF st] have "0 < next_promise w'" by simp
  from inv_promise_allocated [OF inv' this] have pr': "promise (heap w' 0) = Some (Suc 0)" .
  have "pstate (promises w' 0) = Rejected err \<and> connect_calls w' = connect_calls w"
  proof (cases ev)
    case (Load e)
    with st have "step (Load e) w = Some w'" by simp
    from Load_shape [OF this] have "promises w' = promises w" "connect_calls w' = connect_calls w"
      by auto
    with rej show ?thesis by simp
  next
    case (Call i)
    with st have "step (Call i) w = Some w'" by simp
    from Call_shape [OF this] obtain m where i: "i < length (modules w)"
      and m: "modules w ! i = Inr m"
      and sh: "(\<exists>c. conn (heap w (cached m)) = Some c \<and> w' = w\<lparr>frames := frames w @ [(m, Returned c)]\<rparr>)
      \<or> (\<exists>q. conn (heap w (cached m)) = None \<and> promise (heap w (cached m)) = Some q \<and>
             w' = w\<lparr>frames := frames w @ [(m, Awaiting q)]\<rparr>)
      \<or> (conn (heap w (cached m)) = None \<and> promise (heap w (cached m)) = None \<and>
          w' = w\<lparr>heap := (heap w)(cached m := (heap w (cached m))\<lparr>promise := Some (Suc (next_promise w))\<rparr>),
             promises := ((promises w)(next_promise w := \<lparr>chained_on = None, pstate = Pending\<rparr>))
                           (Suc (next_promise w) :=
                              \<lparr>chained_on = Some (next_promise w), pstate = Pending\<rparr>),
             next_promise := Suc (Suc (next_promise w)),
             connect_calls := connect_calls w @ [(MONGODB_URI m, options)],
             frames := frames w @ [(m, Awaiting (Suc (next_promise w)))]\<rparr>)"
      by blast
    from loaded_cached [OF inv i m] pr have "promise (heap w (cached m)) \<noteq> None" by simp
    with sh have "promises w' = promises w" "connect_calls w' = connect_calls w" by auto
    with rej show ?thesis by simp
  next
    case (Settle p r)
    with st have "step (Settle p r) w = Some w'" by simp
    from Settle_shape [OF this] have lt: "p < next_promise w"
      and c: "chained_on (promises w p) = None" and pe: "pstate (promises w p) = Pending"
      by simp_all
    from lt ch have "p = 0 \<or> p = Suc 0" by auto
    with c ch have "p = 0" by auto
    with pe rej show ?thesis by simp
  next
    case (ThenJob q)
    with st have "step (ThenJob q) w = Some w'" by simp
    from ThenJob_shape [OF this] obtain p s where c: "chained_on (promises w q) = Some p"
      and w': "w' = set_pstate q s w"
      by blast
    have "q \<noteq> 0"
    proof
      assume "q = 0"
      with c ch show False by simp
    qed
    with rej show ?thesis by (simp add: w' set_pstate_def)
  next
    case (Resume f)
    with st have "step (Resume f) w = Some w'" by simp
    from Resume_shape [OF this] have "promises w' = promises w" "connect_calls w' = connect_calls w"
      by auto
    with rej show ?thesis by simp
  next
    case (GetNative i)
    with st have "step (GetNative i) w = Some w'" by simp
    from GetNative_shape [OF this] rej show ?thesis by simp
  qed
  with inv' pr' show ?thesis by (simp add: poisoned_def)
qed

lemma poisoned_run:
  "poisoned err w \<Longrightarrow> run evs w = Some w' \<Longrightarrow>
   poisoned err w' \<and> connect_calls w' = connect_calls w"
proof (induction evs arbitrary: w)
  case Nil
  then show ?case by simp
next
  case (Cons ev evs)
  from Cons.prems(2) obtain w1 where s: "step ev w = Some w1" and r: "run evs w1 = Some w'"
    by (auto split: option.splits)
  from poisoned_step [OF Cons.prems(1) s] have "poisoned err w1" "connect_calls w1 = connect_calls w"
    by simp_all
  with Cons.IH [OF this(1) r] show ?case by simp
qed

lemma poisoned_chained:
  "poisoned err w \<Longrightarrow>
   pstate (promises w (Suc 0)) = Pending \<or> pstate (promises w (Suc 0)) = Rejected err"
  using inv_chain [of w] by (auto simp: poisoned_def)

lemma poisoned_conn: "poisoned err w \<Longrightarrow> conn (heap w 0) = None"
proof (cases "conn (heap w 0)")
  case (Some c)
  assume po: "poisoned err w"
  then have "cache_inv w" by (simp add: poisoned_def)
  from inv_conn_fulfilled [OF this Some] poisoned_chained [OF po] show ?thesis by simp
qed simp

lemma poisoned_frames:
  assumes po: "poisoned err w" and x: "x \<in> set (frames w)"
  shows "snd x = Awaiting (Suc 0) \<or> snd x = Threw err"
proof -
  from po have "cache_inv w" by (simp add: poisoned_def)
  with x have "status_ok w (snd x)" by (simp add: cache_inv_def list_all_iff frame_ok_def)
  with poisoned_chained [OF po] show ?thesis by (cases "snd x") auto
qed

lemma poisoned_ThenJob:
  assumes po: "poisoned err w" and pe: "pstate (promises w (Suc 0)) = Pending"
  shows "step (ThenJob (Suc 0)) w = Some (set_pstate (Suc 0) (Rejected err) w)"
proof -
  from po have inv: "cache_inv w" and pr: "promise (heap w 0) = Some (Suc 0)"
    and rej: "pstate (promises w 0) = Rejected err"
    by (simp_all add: poisoned_def)
  from inv_chain [OF inv pr] pe rej show ?thesis by simp
qed

lemma poisoned_Call:
  assumes po: "poisoned err w" and j: "j < length (modules w)" and m: "modules w ! j = Inr m"
  shows "step (Call j) w = Some (w\<lparr>frames := frames w @ [(m, Awaiting (Suc 0))]\<rparr>)"
proof -
  from po have inv: "cache_inv w" and pr: "promise (heap w 0) = Some (Suc 0)"
    by (simp_all add: poisoned_def)
  from loaded_cached [OF inv j m] have c0: "cached m = 0" .
  from Call_pending [OF j m, of "Suc 0"] poisoned_conn [OF po] pr c0 show ?thesis by simp
qed

section \<open>The claims\<close>

text \<open>
  C4. A call of \<^verbatim>\<open>connectToDatabase\<close> made when the \<^verbatim>\<open>conn\<close> field of the cache
  record is populated returns that handle at once: the frame finishes without suspending
  and the world is left exactly as it was, so \<^verbatim>\<open>mongoose.connect\<close> is not invoked, no
  promise is created and nothing is written.
\<close>

theorem connect_cached_no_io:
  "conn (heap w (cached m)) = Some c \<Longrightarrow> connectToDatabase m w = (Returned c, w)"
  by (simp add: connectToDatabase_def)

theorem connect_cached_no_io_witness:
  "conn (heap (world_after connected_trace) (cached example_module)) = Some example_handle
   \<and> connectToDatabase example_module (world_after connected_trace)
       = (Returned example_handle, world_after connected_trace)"
  using connect_cached_no_io [of "world_after connected_trace" example_module example_handle]
  by (simp add: example_defs model_defs)

text \<open>
  C8. \<^verbatim>\<open>getMongoNativeConnection\<close> has no side effect: whatever the state, the world
  after the call is the world before it (the cache record with both its fields, the
  promises, the log of handshakes).
\<close>

theorem getNative_no_effect: "snd (getMongoNativeConnection m w) = w"
  by (simp add: getMongoNativeConnection_def split: option.splits)

text \<open>
  C10. An endpoint variable set to the empty string is treated as an absent one: the
  evaluation of the module throws the configuration error and leaves the world
  untouched, exactly as it does when the variable is removed from the environment.
\<close>

theorem empty_uri_like_absent:
  "e ''MONGO_URI'' = Some [] \<Longrightarrow>
   module_init e w = (Inl config_error, w) \<and>
   module_init e w = module_init (e(''MONGO_URI'' := None)) w"
  by (simp add: module_init_def)

theorem empty_uri_like_absent_witness:
  "[''MONGO_URI'' \<mapsto> []] ''MONGO_URI'' = Some [] \<and>
   module_init [''MONGO_URI'' \<mapsto> []] process_start = (Inl config_error, process_start) \<and>
   module_init [''MONGO_URI'' \<mapsto> []] process_start
     = module_init ([''MONGO_URI'' \<mapsto> []](''MONGO_URI'' := None)) process_start"
  using empty_uri_like_absent [of "[''MONGO_URI'' \<mapsto> []]" process_start]
  by auto

text \<open>
  C1. Whatever events a process goes through from its start (module evaluations, calls
  issued one after another or while earlier ones are still suspended, the driver settling
  the handshake, resumptions in any order), \<^verbatim>\<open>mongoose.connect\<close> has been invoked at most
  once, and any two calls that returned a handle returned the same one. That handle is
  the resolved one: whenever a call has returned a handle, \<^verbatim>\<open>mongoose.connect\<close> has been
  invoked exactly once, the promise it returned (promise 0, which no other promise is
  chained before) is fulfilled with that very handle, and the \<^verbatim>\<open>conn\<close> field of the
  cache record the call used holds it.
\<close>

theorem single_handshake:
  assumes "run evs process_start = Some w"
  shows "length (connect_calls w) \<le> 1 \<and>
         (\<forall>x \<in> set (frames w). \<forall>y \<in> set (frames w). \<forall>c d.
            snd x = Returned c \<and> snd y = Returned d \<longrightarrow> c = d) \<and>
         (\<forall>x \<in> set (frames w). \<forall>c.
            snd x = Returned c \<longrightarrow>
              length (connect_calls w) = 1 \<and> chained_on (promises w 0) = None \<and>
              pstate (promises w 0) = Fulfilled c \<and> conn (heap w (cached (fst x))) = Some c)"
proof -
  from assms have inv: "cache_inv w" by (rule reachable_inv)
  have "c = d" if "x \<in> set (frames w)" "y \<in> set (frames w)" "snd x = Returned c" "snd y = Returned d"
    for x y c d
    using inv_returned [OF inv that(1,3)] inv_returned [OF inv that(2,4)] by simp
  moreover have "length (connect_calls w) = 1 \<and> chained_on (promises w 0) = None \<and>
      pstate (promises w 0) = Fulfilled c \<and> conn (heap w (cached (fst x))) = Some c"
    if "x \<in> set (frames w)" "snd x = Returned c" for x c
    using inv_returned_handshake [OF inv that] .
  ultimately show ?thesis using inv_handshakes [OF inv] by blast
qed

theorem single_handshake_witness:
  "run connected_trace process_start = Some (world_after connected_trace) \<and>
   connect_calls (world_after connected_trace) = [(example_uri, options)] \<and>
   promises (world_after connected_trace) 0
     = \<lparr>chained_on = None, pstate = Fulfilled example_handle\<rparr> \<and>
   map snd (frames (world_after connected_trace))
     = [Returned example_handle, Returned example_handle, Returned example_handle] \<and>
   conn (heap (world_after connected_trace) 0) = Some example_handle"
  using single_handshake [of connected_trace "world_after connected_trace"]
  by (simp add: example_defs model_defs)

text \<open>
  C5. \<^verbatim>\<open>getMongoNativeConnection\<close> returns the absent value when the \<^verbatim>\<open>conn\<close>
  field is not populated and the \<^verbatim>\<open>connection\<close> embedded in the cached handle when
  it is; in a process in which no call of \<^verbatim>\<open>connectToDatabase\<close> has returned yet, it
  returns the absent value.
\<close>

theorem getNative_result:
  "(conn (heap w (cached m)) = None \<longrightarrow> fst (getMongoNativeConnection m w) = None) \<and>
   (\<forall>c. conn (heap w (cached m)) = Some c \<longrightarrow>
        fst (getMongoNativeConnection m w) = Some (connection c)) \<and>
   (run evs process_start = Some w \<and> i < length (modules w) \<and> modules w ! i = Inr m \<and>
    (\<forall>c. Returned c \<notin> snd ` set (frames w)) \<longrightarrow>
      fst (getMongoNativeConnection m w) = None)"
proof (intro conjI allI impI)
  assume "run evs process_start = Some w \<and> i < length (modules w) \<and> modules w ! i = Inr m \<and>
    (\<forall>c. Returned c \<notin> snd ` set (frames w))"
  then have r: "run evs process_start = Some w" and i: "i < length (modules w)"
    and m: "modules w ! i = Inr m" and n: "\<And>c. Returned c \<notin> snd ` set (frames w)"
    by simp_all
  from r have inv: "cache_inv w" by (rule reachable_inv)
  from loaded_cached [OF inv i m] have c0: "cached m = 0" .
  have "conn (heap w 0) = None"
  proof (cases "conn (heap w 0)")
    case (Some c)
    from inv_conn_returned [OF inv Some] n show ?thesis by simp
  qed simp
  then show "fst (getMongoNativeConnection m w) = None"
    by (simp add: getMongoNativeConnection_def c0)
qed (simp_all add: getMongoNativeConnection_def)

theorem getNative_result_witness:
  "fst (getMongoNativeConnection example_module (world_after [Load example_env, Call 0]))
     = None \<and>
   map snd (frames (world_after [Load example_env, Call 0])) = [Awaiting 1] \<and>
   conn (heap (world_after connected_trace) (cached example_module))
     = Some example_handle \<and>
   fst (getMongoNativeConnection example_module (world_after connected_trace))
     = Some (Connection 5)"
  using getNative_result [of "world_after [Load example_env, Call 0]" example_module
      "[Load example_env, Call 0]" 0]
    getNative_result [of "world_after connected_trace" example_module
      connected_trace 0]
  by (simp add: example_defs model_defs)

text \<open>
  C9. Resuming a frame whose awaited promise is rejected ends the call with that error
  and changes nothing but the frame: the cache record is what it was. In a process
  started from \<open>process_start\<close> the \<^verbatim>\<open>conn\<close> field is then absent. A resumption
  that does change a \<^verbatim>\<open>conn\<close> field is one whose awaited promise is fulfilled, and
  it stores the value of that promise.
\<close>

theorem rejection_leaves_conn:
  "(f < length (frames w) \<and> frames w ! f = (m, Awaiting p) \<and>
    pstate (promises w p) = Rejected err \<longrightarrow>
      connectToDatabase_resume m (pstate (promises w p)) w = Some (Threw err, w) \<and>
      step (Resume f) w = Some (w\<lparr>frames := (frames w)[f := (m, Threw err)]\<rparr>)) \<and>
   (f < length (frames w) \<and> frames w ! f = (m, Awaiting p) \<and>
    pstate (promises w p) = Rejected err \<and> run evs process_start = Some w \<longrightarrow>
      conn (heap w (cached m)) = None) \<and>
   (step (Resume f) w = Some w' \<and> conn (heap w' a) \<noteq> conn (heap w a) \<longrightarrow>
      (\<exists>m p v. frames w ! f = (m, Awaiting p) \<and> pstate (promises w p) = Fulfilled v \<and>
         conn (heap w' a) = Some v))"
proof (intro conjI impI)
  assume "f < length (frames w) \<and> frames w ! f = (m, Awaiting p) \<and>
    pstate (promises w p) = Rejected err"
  then show "connectToDatabase_resume m (pstate (promises w p)) w = Some (Threw err, w)"
    and "step (Resume f) w = Some (w\<lparr>frames := (frames w)[f := (m, Threw err)]\<rparr>)"
    by simp_all
next
  assume "f < length (frames w) \<and> frames w ! f = (m, Awaiting p) \<and>
    pstate (promises w p) = Rejected err \<and> run evs process_start = Some w"
  then have f: "f < length (frames w)" and fr: "frames w ! f = (m, Awaiting p)"
    and rej: "pstate (promises w p) = Rejected err" and r: "run evs process_start = Some w"
    by simp_all
  from r have inv: "cache_inv w" by (rule reachable_inv)
  from inv_awaiting [OF inv f fr] have "cached m = 0" and "p = Suc 0" by simp_all
  with inv_rejected_no_conn [OF inv, of err] rej show "conn (heap w (cached m)) = None" by simp
next
  assume a: "step (Resume f) w = Some w' \<and> conn (heap w' a) \<noteq> conn (heap w a)"
  then have st: "step (Resume f) w = Some w'" and ne: "conn (heap w' a) \<noteq> conn (heap w a)"
    by simp_all
  from Resume_shape [OF st] obtain m p where fr: "frames w ! f = (m, Awaiting p)"
    and sh: "(\<exists>v. pstate (promises w p) = Fulfilled v \<and>
            w' = w\<lparr>heap := (heap w)(cached m := (heap w (cached m))\<lparr>conn := Some v\<rparr>),
                   frames := (frames w)[f := (m, Returned v)]\<rparr>)
       \<or> (\<exists>err. pstate (promises w p) = Rejected err \<and>
            w' = w\<lparr>frames := (frames w)[f := (m, Threw err)]\<rparr>)"
    by blast
  from sh ne obtain v where v: "pstate (promises w p) = Fulfilled v"
    and w': "w' = w\<lparr>heap := (heap w)(cached m := (heap w (cached m))\<lparr>conn := Some v\<rparr>),
                   frames := (frames w)[f := (m, Returned v)]\<rparr>"
    by auto
  from ne have "conn (heap w' a) = Some v" by (auto simp: w' split: if_splits)
  with fr v show "\<exists>m p v. frames w ! f = (m, Awaiting p) \<and> pstate (promises w p) = Fulfilled v \<and>
         conn (heap w' a) = Some v" by blast
qed

theorem rejection_leaves_conn_witness:
  "run (butlast failed_trace) process_start = Some (world_after (butlast failed_trace)) \<and>
   frames (world_after (butlast failed_trace)) ! 0 = (example_module, Awaiting 1) \<and>
   pstate (promises (world_after (butlast failed_trace)) 1) = Rejected (Error ''ECONNREFUSED'') \<and>
   step (Resume 0) (world_after (butlast failed_trace)) = Some (world_after failed_trace) \<and>
   map snd (frames (world_after failed_trace)) = [Threw (Error ''ECONNREFUSED''), Awaiting 1] \<and>
   heap (world_after failed_trace) = heap (world_after (butlast failed_trace)) \<and>
   conn (heap (world_after failed_trace) 0) = None \<and>
   step (Resume 0) (world_after (take 5 connected_trace))
     = Some (world_after (take 6 connected_trace)) \<and>
   conn (heap (world_after (take 5 connected_trace)) 0) = None \<and>
   conn (heap (world_after (take 6 connected_trace)) 0) = Some example_handle"
  using rejection_leaves_conn [of 0 "world_after (butlast failed_trace)"
      example_module 1 "Error ''ECONNREFUSED''" "butlast failed_trace"]
    rejection_leaves_conn [of 0 "world_after (take 5 connected_trace)"
      example_module 1 "Error []" "[]" "world_after (take 6 connected_trace)" 0]
  by (simp add: example_defs model_defs)

text \<open>
  C3. When the endpoint variable is absent from the environment, evaluating the module
  throws the configuration error and changes nothing; the failed evaluation exports
  nothing, so a call of its \<^verbatim>\<open>connectToDatabase\<close> cannot take place. In a process all
  of whose evaluations find the variable absent there is never a frame, a handshake, a
  cache record or a handle.
\<close>

theorem missing_uri_fails_at_load:
  "(e ''MONGO_URI'' = None \<longrightarrow>
      module_init e w = (Inl config_error, w) \<and>
      step (Load e) w = Some (w\<lparr>modules := modules w @ [Inl config_error]\<rparr>) \<and>
      step (Call (length (modules w))) (w\<lparr>modules := modules w @ [Inl config_error]\<rparr>) = None) \<and>
   (list_all loads_without_uri evs \<and> run evs process_start = Some w' \<longrightarrow>
      frames w' = [] \<and> connect_calls w' = [] \<and> global_mongoose w' = None \<and>
      (\<forall>a. conn (heap w' a) = None) \<and> set (modules w') \<subseteq> {Inl config_error})"
proof (intro conjI impI)
  assume e: "e ''MONGO_URI'' = None"
  then show "module_init e w = (Inl config_error, w)" by (simp add: module_init_def)
  from e show "step (Load e) w = Some (w\<lparr>modules := modules w @ [Inl config_error]\<rparr>)"
    by (simp add: module_init_def)
  show "step (Call (length (modules w))) (w\<lparr>modules := modules w @ [Inl config_error]\<rparr>) = None"
    by simp
next
  assume "list_all loads_without_uri evs \<and> run evs process_start = Some w'"
  then have l: "list_all loads_without_uri evs" and r: "run evs process_start = Some w'" by simp_all
  have "never_loaded process_start" by (simp add: never_loaded_def process_start_def)
  from never_loaded_run [OF this l r] have n: "never_loaded w'" .
  then show "frames w' = []" "connect_calls w' = []" "global_mongoose w' = None"
    "set (modules w') \<subseteq> {Inl config_error}"
    by (simp_all add: never_loaded_def)
  from n show "\<forall>a. conn (heap w' a) = None" by (simp add: never_loaded_def process_start_def)
qed

theorem missing_uri_fails_at_load_witness:
  "Map.empty ''MONGO_URI'' = (None :: string option) \<and>
   module_init Map.empty process_start = (Inl config_error, process_start) \<and>
   [''MONGODB_URI'' \<mapsto> example_uri] ''MONGO_URI'' = None \<and>
   module_init [''MONGODB_URI'' \<mapsto> example_uri] process_start
     = (Inl config_error, process_start) \<and>
   run [Load Map.empty, Load Map.empty] process_start
     = Some (world_after [Load Map.empty, Load Map.empty]) \<and>
   modules (world_after [Load Map.empty, Load Map.empty]) = [Inl config_error, Inl config_error] \<and>
   frames (world_after [Load Map.empty, Load Map.empty]) = [] \<and>
   run [Load Map.empty, Call 0] process_start = None"
  using missing_uri_fails_at_load [of Map.empty process_start "[Load Map.empty, Load Map.empty]"
      "world_after [Load Map.empty, Load Map.empty]"]
    missing_uri_fails_at_load [of "[''MONGODB_URI'' \<mapsto> example_uri]" process_start "[]"
      process_start]
  by (simp add: example_defs model_defs)

text \<open>
  C7. Evaluating the module again when \<^verbatim>\<open>global.mongoose\<close> already holds a cache
  record binds \<^verbatim>\<open>cached\<close> to that very record and changes nothing: no fresh record is
  allocated. A call through the new evaluation returns the handle the record holds, or
  awaits the promise it holds, without invoking \<^verbatim>\<open>mongoose.connect\<close>. In a process
  started from \<open>process_start\<close> every evaluated module refers to the record on the
  global object and there is at most one handshake, however often the module is evaluated.
\<close>

theorem reload_reuses_cache:
  "(global_mongoose w = Some a \<and> e ''MONGO_URI'' = Some u \<and> u \<noteq> [] \<longrightarrow>
      module_init e w = (Inr \<lparr>MONGODB_URI = u, cached = a\<rparr>, w) \<and>
      (\<forall>c. conn (heap w a) = Some c \<longrightarrow>
           connectToDatabase \<lparr>MONGODB_URI = u, cached = a\<rparr> w = (Returned c, w)) \<and>
      (\<forall>q. conn (heap w a) = None \<and> promise (heap w a) = Some q \<longrightarrow>
           connectToDatabase \<lparr>MONGODB_URI = u, cached = a\<rparr> w = (Awaiting q, w))) \<and>
   (run evs process_start = Some w \<and> i < length (modules w) \<and> modules w ! i = Inr m \<longrightarrow>
      global_mongoose w = Some (cached m) \<and> length (connect_calls w) \<le> 1)"
proof (intro conjI impI allI)
  assume a: "global_mongoose w = Some a \<and> e ''MONGO_URI'' = Some u \<and> u \<noteq> []"
  then have "w\<lparr>global_mongoose := Some a\<rparr> = w" by simp
  with a show "module_init e w = (Inr \<lparr>MONGODB_URI = u, cached = a\<rparr>, w)"
    by (simp add: module_init_def)
next
  fix c assume "conn (heap w a) = Some c"
  then show "connectToDatabase \<lparr>MONGODB_URI = u, cached = a\<rparr> w = (Returned c, w)"
    by (simp add: connectToDatabase_def)
next
  fix q assume "conn (heap w a) = None \<and> promise (heap w a) = Some q"
  then show "connectToDatabase \<lparr>MONGODB_URI = u, cached = a\<rparr> w = (Awaiting q, w)"
    by (simp add: connectToDatabase_def)
next
  assume "run evs process_start = Some w \<and> i < length (modules w) \<and> modules w ! i = Inr m"
  then have r: "run evs process_start = Some w" and i: "i < length (modules w)"
    and m: "modules w ! i = Inr m" by simp_all
  from r have inv: "cache_inv w" by (rule reachable_inv)
  from inv_global_loaded [OF inv i m] show "global_mongoose w = Some (cached m)" .
  from inv_handshakes [OF inv] show "length (connect_calls w) \<le> 1" .
qed

theorem reload_reuses_cache_witness:
  "run (connected_trace @ [Load example_env, Call 1]) process_start
     = Some (world_after (connected_trace @ [Load example_env, Call 1])) \<and>
   global_mongoose (world_after connected_trace) = Some 0 \<and>
   conn (heap (world_after connected_trace) 0) = Some example_handle \<and>
   module_init example_env (world_after connected_trace)
     = (Inr example_module, world_after connected_trace) \<and>
   modules (world_after (connected_trace @ [Load example_env, Call 1]))
     = [Inr example_module, Inr example_module] \<and>
   frames (world_after (connected_trace @ [Load example_env, Call 1])) ! 3
     = (example_module, Returned example_handle) \<and>
   length (connect_calls (world_after (connected_trace @ [Load example_env, Call 1]))) = 1 \<and>
   map snd (frames (world_after [Load example_env, Call 0, Load example_env, Call 1]))
     = [Awaiting 1, Awaiting 1] \<and>
   length (connect_calls (world_after [Load example_env, Call 0, Load example_env, Call 1])) = 1"
  using reload_reuses_cache [of "world_after connected_trace" 0 example_env example_uri
      "connected_trace" 0 example_module]
    reload_reuses_cache [of "world_after [Load example_env, Call 0]" 0 example_env example_uri
      "[Load example_env, Call 0]" 0 example_module]
  by (simp add: example_defs model_defs)

text \<open>
  C6. The record that an evaluation of the module allocates (when \<^verbatim>\<open>global.mongoose\<close>
  is still undefined) is empty: \<^verbatim>\<open>conn\<close> and \<^verbatim>\<open>promise\<close> are both absent. In every
  state of a process, a populated \<^verbatim>\<open>conn\<close> holds the value with which the promise in
  the \<^verbatim>\<open>promise\<close> field was fulfilled. No event changes a populated \<^verbatim>\<open>conn\<close> to
  anything else, and no event clears or replaces a populated \<^verbatim>\<open>promise\<close>.
\<close>

theorem cache_record_lifecycle:
  "(global_mongoose w0 = None \<and> module_init e w0 = (Inr m0, w1) \<longrightarrow>
      heap w1 (cached m0) = \<lparr>conn = None, promise = None\<rparr> \<and>
      global_mongoose w1 = Some (cached m0)) \<and>
   (run evs process_start = Some w \<and> i < length (modules w) \<and> modules w ! i = Inr m \<longrightarrow>
      (\<forall>c. conn (heap w (cached m)) = Some c \<longrightarrow>
         (\<exists>q. promise (heap w (cached m)) = Some q \<and> pstate (promises w q) = Fulfilled c))) \<and>
   (run evs process_start = Some w \<and> i < length (modules w) \<and> modules w ! i = Inr m \<and>
    step ev w = Some w' \<longrightarrow>
      (\<forall>c. conn (heap w (cached m)) = Some c \<longrightarrow> conn (heap w' (cached m)) = Some c) \<and>
      (\<forall>q. promise (heap w (cached m)) = Some q \<longrightarrow> promise (heap w' (cached m)) = Some q))"
proof (intro conjI impI allI)
  assume a: "global_mongoose w0 = None \<and> module_init e w0 = (Inr m0, w1)"
  then show "heap w1 (cached m0) = \<lparr>conn = None, promise = None\<rparr>"
    by (auto simp: module_init_def new_cache_def split: option.splits if_splits)
  from a show "global_mongoose w1 = Some (cached m0)"
    by (auto simp: module_init_def new_cache_def split: option.splits if_splits)
next
  fix c
  assume a: "run evs process_start = Some w \<and> i < length (modules w) \<and> modules w ! i = Inr m"
    and c: "conn (heap w (cached m)) = Some c"
  from a have "run evs process_start = Some w" by simp
  then have inv: "cache_inv w" by (rule reachable_inv)
  from a loaded_cached [OF inv, of i m] have c0: "cached m = 0" by simp
  from inv_conn_fulfilled [OF inv, of c] c c0
  show "\<exists>q. promise (heap w (cached m)) = Some q \<and> pstate (promises w q) = Fulfilled c" by simp
next
  fix c
  assume a: "run evs process_start = Some w \<and> i < length (modules w) \<and> modules w ! i = Inr m \<and>
    step ev w = Some w'"
    and c: "conn (heap w (cached m)) = Some c"
  from a have "run evs process_start = Some w" and st: "step ev w = Some w'" by simp_all
  then have inv: "cache_inv w" by (simp add: reachable_inv [of evs])
  from a loaded_cached [OF inv, of i m] have c0: "cached m = 0" by simp
  from inv_step [OF inv st] have inv': "cache_inv w'" .
  from inv_conn_returned [OF inv, of c] c c0 have "Returned c \<in> snd ` set (frames w)" by simp
  from step_returned_stays [OF st this] obtain x where "x \<in> set (frames w')" "snd x = Returned c"
    by auto
  from inv_returned [OF inv' this] c0 show "conn (heap w' (cached m)) = Some c" by simp
next
  fix q
  assume a: "run evs process_start = Some w \<and> i < length (modules w) \<and> modules w ! i = Inr m \<and>
    step ev w = Some w'"
    and q: "promise (heap w (cached m)) = Some q"
  from a have "run evs process_start = Some w" and st: "step ev w = Some w'" by simp_all
  then have inv: "cache_inv w" by (simp add: reachable_inv [of evs])
  from a loaded_cached [OF inv, of i m] have c0: "cached m = 0" by simp
  from inv_step [OF inv st] have inv': "cache_inv w'" .
  from inv_promise_set [OF inv, of q] q c0 have q1: "q = Suc 0" and "next_promise w = Suc (Suc 0)"
    by simp_all
  with step_next_promise_mono [OF st] have "0 < next_promise w'" by simp
  from inv_promise_allocated [OF inv' this] q1 c0
  show "promise (heap w' (cached m)) = Some q" by simp
qed

theorem cache_record_lifecycle_witness:
  "global_mongoose process_start = None \<and>
   module_init example_env process_start
     = (Inr example_module, snd (module_init example_env process_start)) \<and>
   heap (snd (module_init example_env process_start)) 0 = \<lparr>conn = None, promise = None\<rparr> \<and>
   run (take 6 connected_trace) process_start = Some (world_after (take 6 connected_trace)) \<and>
   modules (world_after (take 6 connected_trace)) = [Inr example_module] \<and>
   step (Resume 1) (world_after (take 6 connected_trace))
     = Some (world_after (take 7 connected_trace)) \<and>
   heap (world_after (take 6 connected_trace)) 0
     = \<lparr>conn = Some example_handle, promise = Some 1\<rparr> \<and>
   pstate (promises (world_after (take 6 connected_trace)) 1) = Fulfilled example_handle \<and>
   heap (world_after (take 7 connected_trace)) 0
     = \<lparr>conn = Some example_handle, promise = Some 1\<rparr>"
  using cache_record_lifecycle [of process_start example_env example_module
      "snd (module_init example_env process_start)" "take 6 connected_trace"
      "world_after (take 6 connected_trace)" 0 example_module "Resume 1"
      "world_after (take 7 connected_trace)"]
  by (simp add: example_defs model_defs)

text \<open>
  C2. Take a process in which the handshake promise has been rejected with \<open>err\<close>, and
  any events after that. \<^verbatim>\<open>mongoose.connect\<close> is not invoked again; the \<^verbatim>\<open>promise\<close>
  field still holds the same promise and \<^verbatim>\<open>conn\<close> stays absent; the promise in the
  cache is rejected with \<open>err\<close> (or is about to be: its reaction job is ready to reject
  it); every call so far is suspended on that promise or has thrown \<open>err\<close>; every
  suspended call, when resumed, throws \<open>err\<close>; and every further call suspends on the
  same promise without starting a handshake.
\<close>

theorem failed_handshake_is_permanent:
  assumes r: "run evs process_start = Some w"
    and i: "i < length (modules w)" and m: "modules w ! i = Inr m"
    and q: "promise (heap w (cached m)) = Some q"
    and p: "chained_on (promises w q) = Some p"
    and rej: "pstate (promises w p) = Rejected err"
    and later: "run evs' w = Some w'"
  shows "connect_calls w' = connect_calls w \<and>
         promise (heap w' (cached m)) = Some q \<and> conn (heap w' (cached m)) = None \<and>
         pstate (promises w' p) = Rejected err \<and>
         (pstate (promises w' q) = Pending \<and>
            step (ThenJob q) w' = Some (set_pstate q (Rejected err) w')
          \<or> pstate (promises w' q) = Rejected err) \<and>
         (\<forall>x \<in> set (frames w'). snd x = Awaiting q \<or> snd x = Threw err) \<and>
         (\<forall>f m'. f < length (frames w') \<and> frames w' ! f = (m', Awaiting q) \<and>
                 pstate (promises w' q) = Rejected err \<longrightarrow>
            step (Resume f) w' = Some (w'\<lparr>frames := (frames w')[f := (m', Threw err)]\<rparr>)) \<and>
         (\<forall>j m'. j < length (modules w') \<and> modules w' ! j = Inr m' \<longrightarrow>
            step (Call j) w' = Some (w'\<lparr>frames := frames w' @ [(m', Awaiting q)]\<rparr>))"
proof -
  from r have inv: "cache_inv w" by (rule reachable_inv)
  from loaded_cached [OF inv i m] have c0: "cached m = 0" .
  from inv_promise_set [OF inv, of q] q c0 have q1: "q = Suc 0" by simp
  from inv_chain [OF inv] q p c0 q1 have p0: "p = 0" by simp
  from inv q rej c0 q1 p0 have "poisoned err w" by (simp add: poisoned_def)
  from poisoned_run [OF this later] have po: "poisoned err w'"
    and cc: "connect_calls w' = connect_calls w" by simp_all
  from po have pr': "promise (heap w' 0) = Some (Suc 0)"
    and rej': "pstate (promises w' 0) = Rejected err"
    by (simp_all add: poisoned_def)
  have "pstate (promises w' (Suc 0)) = Pending \<and>
            step (ThenJob (Suc 0)) w' = Some (set_pstate (Suc 0) (Rejected err) w')
          \<or> pstate (promises w' (Suc 0)) = Rejected err"
    using poisoned_chained [OF po] poisoned_ThenJob [OF po] by blast
  moreover have "\<forall>x \<in> set (frames w'). snd x = Awaiting (Suc 0) \<or> snd x = Threw err"
    using poisoned_frames [OF po] by blast
  moreover have "\<forall>f m'. f < length (frames w') \<and> frames w' ! f = (m', Awaiting (Suc 0)) \<and>
                 pstate (promises w' (Suc 0)) = Rejected err \<longrightarrow>
            step (Resume f) w' = Some (w'\<lparr>frames := (frames w')[f := (m', Threw err)]\<rparr>)"
    using Resume_rejected by blast
  moreover have "\<forall>j m'. j < length (modules w') \<and> modules w' ! j = Inr m' \<longrightarrow>
            step (Call j) w' = Some (w'\<lparr>frames := frames w' @ [(m', Awaiting (Suc 0))]\<rparr>)"
    using poisoned_Call [OF po] by blast
  ultimately show ?thesis
    using cc pr' rej' poisoned_conn [OF po] by (simp add: c0 q1 p0)
qed

theorem failed_handshake_is_permanent_witness:
  "run rejected_trace process_start = Some (world_after rejected_trace) \<and>
   modules (world_after rejected_trace) = [Inr example_module] \<and>
   heap (world_after rejected_trace) 0 = \<lparr>conn = None, promise = Some 1\<rparr> \<and>
   chained_on (promises (world_after rejected_trace) 1) = Some 0 \<and>
   pstate (promises (world_after rejected_trace) 0) = Rejected (Error ''ECONNREFUSED'') \<and>
   run after_rejection (world_after rejected_trace)
     = Some (world_after (rejected_trace @ after_rejection)) \<and>
   connect_calls (world_after (rejected_trace @ after_rejection)) = [(example_uri, options)] \<and>
   connect_calls (world_after rejected_trace) = [(example_uri, options)] \<and>
   heap (world_after (rejected_trace @ after_rejection)) 0 = \<lparr>conn = None, promise = Some 1\<rparr> \<and>
   map snd (frames (world_after (rejected_trace @ after_rejection)))
     = [Threw (Error ''ECONNREFUSED''), Threw (Error ''ECONNREFUSED''),
        Threw (Error ''ECONNREFUSED'')]"
  using failed_handshake_is_permanent [of rejected_trace "world_after rejected_trace" 0
      example_module 1 0 "Error ''ECONNREFUSED''" after_rejection
      "world_after (rejected_trace @ after_rejection)"]
  by (simp add: example_defs model_defs)

end
